theory Spec2Isabelle
  imports Main "HOL-Library.Sublist" "HOL-Library.Multiset"
begin

section \<open>The substitution primitives of the script\<close>

text \<open>
  The script \<^verbatim>\<open>fix_ai_calls.py\<close> reads one file, applies two \<^verbatim>\<open>re.sub\<close> calls, five
  \<^verbatim>\<open>str.replace\<close> calls and a third \<^verbatim>\<open>re.sub\<close> call to its text, and writes the text
  back. A document is a \<^typ>\<open>string\<close>: a list of characters with code points below 256.

  Both \<^verbatim>\<open>str.replace\<close> and \<^verbatim>\<open>re.sub\<close> replace the leftmost non-overlapping matches:
  they scan the text from the left; where the pattern matches, the replacement is
  emitted and the scan goes on behind the match; elsewhere one character is copied.
  \<open>scan_replace f\<close> is that scan for a matcher \<open>f\<close> that returns, for the text at the
  current position, the length of the match there and the text to put in its place.
  After an empty match the replacement is emitted and one character is copied, as
  Python does.
\<close>

function scan_replace :: "(string \<Rightarrow> (nat \<times> string) option) \<Rightarrow> string \<Rightarrow> string" where
  "scan_replace f [] = (case f [] of Some (n, r) \<Rightarrow> r | None \<Rightarrow> [])"
| "scan_replace f (c # cs) =
     (case f (c # cs) of
        None \<Rightarrow> c # scan_replace f cs
      | Some (n, r) \<Rightarrow>
          if n = 0 then r @ c # scan_replace f cs
          else r @ scan_replace f (drop n (c # cs)))"
  by pat_completeness auto
termination
  by (relation "measure (\<lambda>(f, s). length s)") auto

text \<open>\<^verbatim>\<open>s.replace(old, new)\<close>: the pattern matches where \<open>old\<close> is a prefix of the rest.\<close>

definition literal_at :: "string \<Rightarrow> string \<Rightarrow> string \<Rightarrow> (nat \<times> string) option" where
  "literal_at old new t = (if prefix old t then Some (length old, new) else None)"

definition str_replace :: "string \<Rightarrow> string \<Rightarrow> string \<Rightarrow> string" where
  "str_replace old new s = scan_replace (literal_at old new) s"

text \<open>
  The regular expressions of the script are sequences of single-character items: a
  literal character, a class \<^verbatim>\<open>[...]\<close>, a negated class \<^verbatim>\<open>[^...]\<close> or \<^verbatim>\<open>\s\<close>, each taken
  once or under \<^verbatim>\<open>+\<close> or \<^verbatim>\<open>*\<close>. \<open>re_match\<close> is the backtracking matcher anchored at the
  start of the text: a quantified item first tries to take one more character
  (greedy) and falls back to the rest of the expression when that fails. It returns
  the length of the match.
\<close>

datatype cls = Lit char | OneOf string | NoneOf string | Space

datatype quant = Once | Plus | Star

type_synonym regex = "(cls \<times> quant) list"

text \<open>\<^verbatim>\<open>\s\<close> on a \<^verbatim>\<open>str\<close> pattern: the code points below 256 that Python counts as whitespace.\<close>

definition is_space :: "char \<Rightarrow> bool" where
  "is_space c = (c \<in> set [CHR 0x09, CHR 0x0A, CHR 0x0B, CHR 0x0C, CHR 0x0D,
     CHR 0x1C, CHR 0x1D, CHR 0x1E, CHR 0x1F, CHR 0x20, CHR 0x85, CHR 0xA0])"

fun cls_ok :: "cls \<Rightarrow> char \<Rightarrow> bool" where
  "cls_ok (Lit x) c = (c = x)"
| "cls_ok (OneOf xs) c = (c \<in> set xs)"
| "cls_ok (NoneOf xs) c = (c \<notin> set xs)"
| "cls_ok Space c = is_space c"

fun re_match :: "regex \<Rightarrow> string \<Rightarrow> nat option" where
  "re_match [] s = Some 0"
| "re_match ((k, Once) # r) [] = None"
| "re_match ((k, Once) # r) (c # cs) =
     (if cls_ok k c then map_option Suc (re_match r cs) else None)"
| "re_match ((k, Plus) # r) [] = None"
| "re_match ((k, Plus) # r) (c # cs) =
     (if cls_ok k c then map_option Suc (re_match ((k, Star) # r) cs) else None)"
| "re_match ((k, Star) # r) [] = re_match r []"
| "re_match ((k, Star) # r) (c # cs) =
     (if cls_ok k c
      then (case re_match ((k, Star) # r) cs of
              Some n \<Rightarrow> Some (Suc n)
            | None \<Rightarrow> re_match r (c # cs))
      else re_match r (c # cs))"

text \<open>
  \<^verbatim>\<open>re.sub(pattern, repl, s)\<close>. The replacement strings of the script hold no backslash,
  so the replacement template is the text itself.
\<close>

definition regex_at :: "regex \<Rightarrow> string \<Rightarrow> string \<Rightarrow> (nat \<times> string) option" where
  "regex_at re repl t = map_option (\<lambda>n. (n, repl)) (re_match re t)"

definition re_sub :: "regex \<Rightarrow> string \<Rightarrow> string \<Rightarrow> string" where
  "re_sub re repl s = scan_replace (regex_at re repl) s"

definition lits :: "string \<Rightarrow> regex" where
  "lits s = map (\<lambda>c. (Lit c, Once)) s"

section \<open>The transformation steps\<close>

text \<open>\<^verbatim>\<open>r'const response = await ai\.models\.generateContent\('\<close>\<close>

definition call_text :: string where
  "call_text = ''const response = await ai.models.generateContent(''"

definition call_pattern :: regex where
  "call_pattern = lits call_text"

text \<open>The two replacement texts; they differ in the indentation of their second line.\<close>

definition handle_primary :: string where
  \<open>handle_primary =
     ''const model = ai.getGenerativeModel({ model: "gemini-2.0-flash-exp" });'' @
     ''\<newline>        const response = await model.generateContent(''\<close>

definition handle_variant :: string where
  \<open>handle_variant =
     ''const model = ai.getGenerativeModel({ model: "gemini-2.0-flash-exp" });'' @
     ''\<newline>     const response = await model.generateContent(''\<close>

definition rewrite_primary :: "string \<Rightarrow> string" where
  "rewrite_primary content = re_sub call_pattern handle_primary content"

definition rewrite_variant :: "string \<Rightarrow> string" where
  "rewrite_variant content = re_sub call_pattern handle_variant content"

text \<open>The five \<^verbatim>\<open>content.replace('Type.X', '"x"')\<close> statements, in the order of the script.\<close>

definition enum_table :: "(string \<times> string) list" where
  \<open>enum_table =
     [(''Type.OBJECT'', ''"object"''),
      (''Type.STRING'', ''"string"''),
      (''Type.ARRAY'', ''"array"''),
      (''Type.INTEGER'', ''"integer"''),
      (''Type.BOOLEAN'', ''"boolean"'')]\<close>

definition replace_seq :: "(string \<times> string) list \<Rightarrow> string \<Rightarrow> string" where
  "replace_seq tbl content = foldl (\<lambda>s (old, new). str_replace old new s) content tbl"

definition normalize_enums :: "string \<Rightarrow> string" where
  "normalize_enums content = replace_seq enum_table content"

text \<open>\<^verbatim>\<open>r'model: [\'"]gemini-[^\'",]+[\'"],\s*'\<close>\<close>

definition quotes :: string where
  \<open>quotes = [CHR 0x27, CHR 0x22]\<close>

definition model_param_pattern :: regex where
  "model_param_pattern =
     lits ''model: '' @ [(OneOf quotes, Once)] @ lits ''gemini-'' @
     [(NoneOf (quotes @ '',''), Plus), (OneOf quotes, Once), (Lit CHR '','', Once),
      (Space, Star)]"

definition strip_model :: "string \<Rightarrow> string" where
  "strip_model content = re_sub model_param_pattern [] content"

text \<open>The whole sequence of assignments to \<^verbatim>\<open>content\<close>.\<close>

definition transform :: "string \<Rightarrow> string" where
  "transform content =
     strip_model (normalize_enums (rewrite_variant (rewrite_primary content)))"

section \<open>The run on a file system\<close>

text \<open>
  A file has a text and the two permissions \<^verbatim>\<open>open\<close> asks for. \<^verbatim>\<open>open(path, 'r')\<close> raises
  when the file is missing or unreadable, \<^verbatim>\<open>open(path, 'w')\<close> when it is not writable;
  either ends the run, uncaught. The world is the file system and what was printed.
\<close>

record file_entry =
  text_of :: string
  readable :: bool
  writable :: bool

datatype error = IOError

record world =
  files :: "string \<rightharpoonup> file_entry"
  printed :: "string list"

definition target :: string where
  "target = ''src/IDE/services/aiService.ts''"

definition read_file :: "world \<Rightarrow> string \<Rightarrow> error + string" where
  "read_file w path =
     (case files w path of
        None \<Rightarrow> Inl IOError
      | Some f \<Rightarrow> if readable f then Inr (text_of f) else Inl IOError)"

definition write_file :: "world \<Rightarrow> string \<Rightarrow> string \<Rightarrow> error + world" where
  "write_file w path txt =
     (case files w path of
        None \<Rightarrow> Inr (w\<lparr>files := (files w)(path \<mapsto> \<lparr>text_of = txt, readable = True, writable = True\<rparr>)\<rparr>)
      | Some f \<Rightarrow>
          if writable f then Inr (w\<lparr>files := (files w)(path \<mapsto> f\<lparr>text_of := txt\<rparr>)\<rparr>)
          else Inl IOError)"

definition run :: "world \<Rightarrow> (error + unit) \<times> world" where
  "run w =
     (case read_file w target of
        Inl e \<Rightarrow> (Inl e, w)
      | Inr content \<Rightarrow>
          (case write_file w target (transform content) of
             Inl e \<Rightarrow> (Inl e, w)
           | Inr w' \<Rightarrow> (Inr (), w'\<lparr>printed := printed w' @ [''Fixed AI service calls!'']\<rparr>)))"

section \<open>Predicates used to state the properties\<close>

text \<open>
  Two texts are apart when neither is a prefix of the other: no text starts with both.
  \<open>no_start_in t r\<close>: \<open>t\<close> is apart from every non-empty suffix of \<open>r\<close>, so an occurrence
  of \<open>t\<close> cannot begin inside \<open>r\<close>, whatever follows \<open>r\<close>. \<open>clear_of t r\<close>: occurrences of \<open>t\<close>
  and \<open>r\<close> in one text never share a character.
\<close>

definition apart :: "string \<Rightarrow> string \<Rightarrow> bool" where
  "apart x y = (\<not> prefix x y \<and> \<not> prefix y x)"

fun no_start_in :: "string \<Rightarrow> string \<Rightarrow> bool" where
  "no_start_in t [] = True"
| "no_start_in t (x # xs) = (apart t (x # xs) \<and> no_start_in t xs)"

definition clear_of :: "string \<Rightarrow> string \<Rightarrow> bool" where
  "clear_of t r = (no_start_in t r \<and> no_start_in r t)"

text \<open>The matcher \<open>f\<close> matches at no position of \<open>s\<close>, the end included.\<close>

fun matches_nowhere :: "(string \<Rightarrow> (nat \<times> string) option) \<Rightarrow> string \<Rightarrow> bool" where
  "matches_nowhere f [] = (f [] = None)"
| "matches_nowhere f (c # cs) = (f (c # cs) = None \<and> matches_nowhere f cs)"

text \<open>The matcher \<open>f\<close> matches at no position of \<open>K\<close> in the text \<open>K @ b\<close>.\<close>

fun quiet :: "(string \<Rightarrow> (nat \<times> string) option) \<Rightarrow> string \<Rightarrow> string \<Rightarrow> bool" where
  "quiet f [] b = True"
| "quiet f (x # xs) b = (f (x # xs @ b) = None \<and> quiet f xs b)"

text \<open>Every match of \<open>f\<close> is non-empty and every replacement it makes is clear of \<open>tk\<close>.\<close>

definition repl_clear :: "(string \<Rightarrow> (nat \<times> string) option) \<Rightarrow> string \<Rightarrow> bool" where
  "repl_clear f tk = (\<forall>t n r. f t = Some (n, r) \<longrightarrow> 0 < n \<and> clear_of tk r)"

text \<open>The characters the class \<^verbatim>\<open>[^\'",]\<close> accepts, and the part of the model pattern
  behind \<^verbatim>\<open>gemini-\<close>.\<close>

definition plain :: "char \<Rightarrow> bool" where
  "plain c = (c \<notin> set (quotes @ '',''))"

definition model_tail :: regex where
  "model_tail =
     [(NoneOf (quotes @ '',''), Plus), (OneOf quotes, Once), (Lit CHR '','', Once),
      (Space, Star)]"

text \<open>The matcher of the stripping step, and a document that holds none of the patterns
  the script looks for.\<close>

definition model_at :: "string \<Rightarrow> (nat \<times> string) option" where
  "model_at = regex_at model_param_pattern []"

definition no_target :: "string \<Rightarrow> bool" where
  "no_target d =
     (\<not> sublist call_text d \<and> list_all (\<lambda>(old, new). \<not> sublist old d) enum_table \<and>
      matches_nowhere model_at d)"

text \<open>The statement the rewrite puts in front of the call: it builds the model handle.\<close>

definition handle_ctor :: string where
  \<open>handle_ctor = ''ai.getGenerativeModel({ model: "gemini-2.0-flash-exp" })''\<close>

text \<open>
  The enum step as the specification words it, for comparison with the five
  \<^verbatim>\<open>replace\<close> statements: one pass over the document from the left in which each
  occurrence of a token of the table is replaced by its string and every other
  character is copied. \<open>first_match\<close> finds the token that starts at the current position.
\<close>

fun first_match :: "(string \<times> string) list \<Rightarrow> string \<Rightarrow> (nat \<times> string) option" where
  "first_match [] t = None"
| "first_match ((old, new) # tbl) t =
     (if prefix old t then Some (length old, new) else first_match tbl t)"

definition replace_one_pass :: "(string \<times> string) list \<Rightarrow> string \<Rightarrow> string" where
  "replace_one_pass tbl s = scan_replace (first_match tbl) s"

text \<open>
  The last character of \<^verbatim>\<open>Type.OBJECT\<close> is the first of every token, so two token
  occurrences can share that character, and then the text reads \<^verbatim>\<open>Type.OBJECType.\<close>; no
  other two can overlap. A document is overlap-free when that text does not occur in it.
\<close>

definition overlap_free :: "string \<Rightarrow> bool" where
  "overlap_free d = (\<not> sublist ''Type.OBJECType.'' d)"

text \<open>The pipeline up to the stripping step.\<close>

definition rewrite_and_normalize :: "string \<Rightarrow> string" where
  "rewrite_and_normalize content = normalize_enums (rewrite_variant (rewrite_primary content))"

section \<open>Properties of the scan\<close>

lemma apart_sym: "apart x y = apart y x"
  by (auto simp: apart_def)

lemma prefix_append_apart: "apart t r \<Longrightarrow> \<not> prefix t (r @ X)"
  by (auto simp: apart_def prefix_append)

lemma no_start_in_suffix:
  "no_start_in t r \<Longrightarrow> suffix q r \<Longrightarrow> q \<noteq> [] \<Longrightarrow> apart t q"
proof (induction r)
  case Nil
  then show ?case by simp
next
  case (Cons x xs)
  then show ?case by (auto simp: suffix_Cons)
qed

lemma scan_nowhere: "matches_nowhere f s \<Longrightarrow> scan_replace f s = s"
  by (induction s) auto

lemma scan_quiet: "quiet f K b \<Longrightarrow> scan_replace f (K @ b) = K @ scan_replace f b"
  by (induction K) auto

lemma sublist_skip:
  "no_start_in t r \<Longrightarrow> t \<noteq> [] \<Longrightarrow> sublist t (r @ X) \<Longrightarrow> sublist t X"
proof (induction r)
  case Nil
  then show ?case by simp
next
  case (Cons x xs)
  from Cons.prems(1) have ap: "apart t (x # xs)" and ns: "no_start_in t xs" by auto
  from Cons.prems(3) have "prefix t ((x # xs) @ X) \<or> sublist t (xs @ X)"
    by (simp add: sublist_Cons_right)
  with prefix_append_apart[OF ap] have "sublist t (xs @ X)" by blast
  with Cons.IH ns Cons.prems(2) show ?case by blast
qed

lemma repl_clearD: "repl_clear f tk \<Longrightarrow> f t = Some (n, r) \<Longrightarrow> 0 < n \<and> clear_of tk r"
  unfolding repl_clear_def by blast

lemma prefix_through_scan:
  "repl_clear f tk \<Longrightarrow> suffix q tk \<Longrightarrow> q \<noteq> [] \<Longrightarrow> prefix q (scan_replace f s) \<Longrightarrow> prefix q s"
proof (induction f s arbitrary: q rule: scan_replace.induct)
  case (1 f)
  show ?case
  proof (cases "f []")
    case None
    with 1 show ?thesis by simp
  next
    case (Some a)
    obtain n r where a: "a = (n, r)" by (cases a)
    from Some a have fs: "f [] = Some (n, r)" by simp
    from repl_clearD[OF "1.prems"(1) fs] have "clear_of tk r" by simp
    hence "apart r q" using 1 by (auto simp: clear_of_def dest: no_start_in_suffix)
    with 1 Some a show ?thesis by (auto simp: apart_def)
  qed
next
  case (2 f c cs)
  note rc = "2.prems"(1) and sq = "2.prems"(2) and qn = "2.prems"(3) and pq = "2.prems"(4)
  show ?case
  proof (cases "f (c # cs)")
    case None
    from qn obtain x q' where q: "q = x # q'" by (cases q) auto
    from pq None q have xc: "x = c" and p': "prefix q' (scan_replace f cs)" by auto
    show ?thesis
    proof (cases "q' = []")
      case True
      with q xc show ?thesis by simp
    next
      case False
      from sq q have "suffix q' tk" by (auto dest: suffix_ConsD)
      from "2.IH"(1)[OF None rc this False p'] have "prefix q' cs" .
      with q xc show ?thesis by simp
    qed
  next
    case (Some a)
    obtain n r where a: "a = (n, r)" by (cases a)
    from Some a have fs: "f (c # cs) = Some (n, r)" by simp
    from repl_clearD[OF rc fs] have n0: "0 < n" and cl: "clear_of tk r" by simp_all
    hence "apart r q" using sq qn by (auto simp: clear_of_def dest: no_start_in_suffix)
    hence "\<not> prefix q (r @ scan_replace f (drop n (c # cs)))"
      using prefix_append_apart[of q r] by (simp add: apart_sym)
    with pq Some a n0 show ?thesis by simp
  qed
qed

lemma scan_occurrence:
  "repl_clear f tk \<Longrightarrow> tk \<noteq> [] \<Longrightarrow> sublist tk (scan_replace f s) \<Longrightarrow>
   \<exists>u. suffix u s \<and> prefix tk u \<and> f u = None"
proof (induction f s rule: scan_replace.induct)
  case (1 f)
  show ?case
  proof (cases "f []")
    case None
    with 1 show ?thesis by simp
  next
    case (Some a)
    obtain n r where a: "a = (n, r)" by (cases a)
    from Some a have fs: "f [] = Some (n, r)" by simp
    from repl_clearD[OF "1.prems"(1) fs] have "no_start_in tk r" by (simp add: clear_of_def)
    from sublist_skip[OF this "1.prems"(2), of "[]"] "1.prems"(2,3) Some a show ?thesis by simp
  qed
next
  case (2 f c cs)
  note rc = "2.prems"(1) and tn = "2.prems"(2) and sl = "2.prems"(3)
  show ?case
  proof (cases "f (c # cs)")
    case None
    from sl None have "prefix tk (scan_replace f (c # cs)) \<or> sublist tk (scan_replace f cs)"
      by (simp add: sublist_Cons_right)
    then show ?thesis
    proof
      assume "prefix tk (scan_replace f (c # cs))"
      from prefix_through_scan[OF rc suffix_order.refl tn this] None show ?thesis by blast
    next
      assume "sublist tk (scan_replace f cs)"
      from "2.IH"(1)[OF None rc tn this] show ?thesis by (auto intro: suffix_ConsI)
    qed
  next
    case (Some a)
    obtain n r where a: "a = (n, r)" by (cases a)
    from Some a have fs: "f (c # cs) = Some (n, r)" by simp
    from repl_clearD[OF rc fs] have n0: "0 < n" and ns: "no_start_in tk r"
      by (simp_all add: clear_of_def)
    from sl fs n0 have "sublist tk (r @ scan_replace f (drop n (c # cs)))" by simp
    from sublist_skip[OF ns tn this] have "sublist tk (scan_replace f (drop n (c # cs)))" .
    from "2.IH"(3)[OF Some a[symmetric] _ rc tn this] n0
    obtain u where "suffix u (drop n (c # cs))" "prefix tk u" "f u = None" by auto
    moreover have "suffix (drop n (c # cs)) (c # cs)" by (rule suffix_drop)
    ultimately show ?thesis by (meson suffix_order.trans)
  qed
qed

lemma scan_no_create:
  "repl_clear f tk \<Longrightarrow> tk \<noteq> [] \<Longrightarrow> sublist tk (scan_replace f s) \<Longrightarrow> sublist tk s"
  by (drule (2) scan_occurrence) (auto simp: sublist_altdef')

lemma scan_absent:
  assumes "repl_clear f tk" "tk \<noteq> []" "\<And>t. prefix tk t \<Longrightarrow> f t \<noteq> None"
  shows "\<not> sublist tk (scan_replace f s)"
  using scan_occurrence[OF assms(1,2)] assms(3) by blast

lemma scan_keeps_aux:
  assumes cl: "\<And>x y. G (x @ y) \<Longrightarrow> G y"
    and E: "\<And>b. G (K @ b) \<Longrightarrow> scan_replace f (K @ b) = K @ scan_replace f b"
    and S: "\<And>a b n r. G (a @ K @ b) \<Longrightarrow> f (a @ K @ b) = Some (n, r) \<Longrightarrow> n \<le> length a"
  shows "G (a @ K @ b) \<Longrightarrow> sublist K (scan_replace f (a @ K @ b))"
proof (induction a rule: length_induct)
  case (1 a)
  show ?case
  proof (cases a)
    case Nil
    with E[of b] "1.prems" show ?thesis by simp
  next
    case (Cons c a')
    have G': "G (a' @ K @ b)" using cl[of "[c]" "a' @ K @ b"] "1.prems" Cons by simp
    have IH': "sublist K (scan_replace f (a' @ K @ b))"
      using "1.IH" Cons G' by simp
    show ?thesis
    proof (cases "f (a @ K @ b)")
      case None
      with Cons IH' show ?thesis by (simp add: sublist_Cons_right)
    next
      case (Some p)
      obtain n r where p: "p = (n, r)" by (cases p)
      from S[OF "1.prems"] Some p have le: "n \<le> length a" by simp
      show ?thesis
      proof (cases "n = 0")
        case True
        have "sublist K (c # scan_replace f (a' @ K @ b))"
          using IH' by (simp add: sublist_Cons_right)
        hence "sublist K (r @ c # scan_replace f (a' @ K @ b))"
          by (metis sublist_append)
        with Some p True Cons show ?thesis by simp
      next
        case False
        have d: "drop n (a @ K @ b) = drop n a @ K @ b" using le by simp
        have "a @ K @ b = take n a @ (drop n a @ K @ b)" by simp
        with "1.prems" have "G (take n a @ (drop n a @ K @ b))" by metis
        hence "G (drop n a @ K @ b)" by (rule cl)
        moreover have "length (drop n a) < length a" using False Cons by simp
        ultimately have "sublist K (scan_replace f (drop n a @ K @ b))"
          using "1.IH" by blast
        hence "sublist K (r @ scan_replace f (drop n (a @ K @ b)))"
          unfolding d by (metis sublist_append)
        with Some p False Cons show ?thesis by simp
      qed
    qed
  qed
qed

lemma scan_keeps:
  assumes cl: "\<And>x y. G (x @ y) \<Longrightarrow> G y"
    and E: "\<And>b. G (K @ b) \<Longrightarrow> scan_replace f (K @ b) = K @ scan_replace f b"
    and S: "\<And>a b n r. G (a @ K @ b) \<Longrightarrow> f (a @ K @ b) = Some (n, r) \<Longrightarrow> n \<le> length a"
    and "G s" "sublist K s"
  shows "sublist K (scan_replace f s)"
proof -
  from assms(5) obtain a b where "s = a @ K @ b" by (auto simp: sublist_def)
  with scan_keeps_aux[where G=G and K=K and f=f and a=a and b=b] cl E S assms(4)
  show ?thesis by blast
qed

lemma re_match_lits:
  "re_match (lits L @ r) s =
     (if prefix L s
      then (case re_match r (drop (length L) s) of None \<Rightarrow> None | Some n \<Rightarrow> Some (length L + n))
      else None)"
proof (induction L arbitrary: s)
  case Nil
  show ?case by (cases "re_match r s") (simp_all add: lits_def)
next
  case (Cons x xs)
  show ?case
  proof (cases s)
    case Nil
    then show ?thesis by (simp add: lits_def)
  next
    case (Cons c cs)
    with Cons.IH[of cs] show ?thesis
      by (cases "re_match r (drop (length xs) cs)") (auto simp: lits_def)
  qed
qed

lemma regex_at_lits: "regex_at (lits L) repl = literal_at L repl"
proof
  fix t
  from re_match_lits[of L "[]" t] show "regex_at (lits L) repl t = literal_at L repl t"
    by (simp add: regex_at_def literal_at_def)
qed

lemma re_sub_lits: "re_sub (lits L) repl s = str_replace L repl s"
  by (simp add: re_sub_def str_replace_def regex_at_lits)

lemma literal_nowhere: "\<not> sublist old s \<Longrightarrow> matches_nowhere (literal_at old new) s"
  by (induction s) (auto simp: literal_at_def sublist_Cons_right)

lemma str_replace_absent_id: "\<not> sublist old s \<Longrightarrow> str_replace old new s = s"
  by (simp add: str_replace_def scan_nowhere literal_nowhere)

lemma literal_repl_clear: "old \<noteq> [] \<Longrightarrow> clear_of tk new \<Longrightarrow> repl_clear (literal_at old new) tk"
  by (auto simp: repl_clear_def literal_at_def split: if_splits)

lemma str_replace_no_create:
  "old \<noteq> [] \<Longrightarrow> tk \<noteq> [] \<Longrightarrow> clear_of tk new \<Longrightarrow> sublist tk (str_replace old new s) \<Longrightarrow> sublist tk s"
  unfolding str_replace_def by (rule scan_no_create[OF literal_repl_clear])

lemma str_replace_absent:
  assumes "old \<noteq> []" "clear_of old new"
  shows "\<not> sublist old (str_replace old new s)"
  unfolding str_replace_def
  by (rule scan_absent[OF literal_repl_clear[OF assms] assms(1)]) (simp add: literal_at_def)

lemma call_clear_primary: "clear_of call_text handle_primary"
  by (simp add: clear_of_def call_text_def handle_primary_def apart_def)

lemma call_absent_primary: "\<not> sublist call_text (rewrite_primary d)"
  unfolding rewrite_primary_def call_pattern_def re_sub_lits
  by (rule str_replace_absent[OF _ call_clear_primary]) (simp add: call_text_def)

lemma re_match_star_last: "re_match [(k, Star)] s = Some (length (takeWhile (cls_ok k) s))"
  by (induction s) auto

lemma re_match_star_once:
  assumes dis: "\<And>c. cls_ok k c \<Longrightarrow> \<not> cls_ok q c"
  shows "re_match ((k, Star) # (q, Once) # r) s =
           (case re_match ((q, Once) # r) (dropWhile (cls_ok k) s) of
              None \<Rightarrow> None
            | Some n \<Rightarrow> Some (length (takeWhile (cls_ok k) s) + n))"
proof (induction s)
  case Nil
  show ?case by simp
next
  case (Cons c cs)
  show ?case
  proof (cases "cls_ok k c")
    case True
    with dis have "\<not> cls_ok q c" by blast
    with True Cons.IH show ?thesis
      by (cases "re_match ((q, Once) # r) (dropWhile (cls_ok k) cs)") auto
  next
    case False
    then show ?thesis by (cases "re_match ((q, Once) # r) (c # cs)") auto
  qed
qed

lemma re_match_plus_once:
  assumes dis: "\<And>c. cls_ok k c \<Longrightarrow> \<not> cls_ok q c"
  shows "re_match ((k, Plus) # (q, Once) # r) s =
           (if takeWhile (cls_ok k) s = [] then None
            else (case re_match ((q, Once) # r) (dropWhile (cls_ok k) s) of
                    None \<Rightarrow> None
                  | Some n \<Rightarrow> Some (length (takeWhile (cls_ok k) s) + n)))"
proof (cases s)
  case Nil
  then show ?thesis by simp
next
  case (Cons c cs)
  show ?thesis
  proof (cases "cls_ok k c")
    case True
    with Cons re_match_star_once[of k q r cs, OF dis] show ?thesis
      by (cases "re_match ((q, Once) # r) (dropWhile (cls_ok k) cs)") auto
  next
    case False
    with Cons show ?thesis by simp
  qed
qed

lemma model_tail_match:
  "re_match model_tail s =
     (if takeWhile plain s = [] then None
      else (case dropWhile plain s of
              q # c # t \<Rightarrow> if q \<in> set quotes \<and> c = CHR '','' then Some (length (takeWhile plain s) + 2 + length (takeWhile is_space t)) else None
            | _ \<Rightarrow> None))"
proof -
  have dis: "\<And>c. cls_ok (NoneOf (quotes @ '','')) c \<Longrightarrow> \<not> cls_ok (OneOf quotes) c" by auto
  have ck: "cls_ok (NoneOf (quotes @ '','')) = plain" by (auto simp: plain_def)
  have sp: "cls_ok Space = is_space" by auto
  have A: "re_match model_tail s =
          (if takeWhile plain s = [] then None
            else (case re_match [(OneOf quotes, Once), (Lit CHR '','', Once), (Space, Star)] (dropWhile plain s) of
                    None \<Rightarrow> None
                  | Some n \<Rightarrow> Some (length (takeWhile plain s) + n)))"
    unfolding model_tail_def
    using re_match_plus_once[where k="NoneOf (quotes @ '','')" and q="OneOf quotes"
        and r="[(Lit CHR '','', Once), (Space, Star)]" and s=s, OF dis]
    by (simp only: ck)
  have B: "re_match [(OneOf quotes, Once), (Lit CHR '','', Once), (Space, Star)] u =
     (case u of q # c # t \<Rightarrow> if q \<in> set quotes \<and> c = CHR '','' then Some (2 + length (takeWhile is_space t)) else None
            | _ \<Rightarrow> None)" for u
    by (auto simp: re_match_star_last sp split: list.splits)
  show ?thesis
  proof (cases "dropWhile plain s")
    case Nil
    show ?thesis unfolding A B Nil by simp
  next
    case (Cons q u)
    show ?thesis unfolding A B Cons by (cases u) simp_all
  qed
qed

lemma model_param_match:
  "re_match model_param_pattern s =
     (if prefix ''model: '' s then
        (case drop 7 s of
           q # t \<Rightarrow> if q \<in> set quotes \<and> prefix ''gemini-'' t
                    then (case re_match model_tail (drop 7 t) of None \<Rightarrow> None | Some n \<Rightarrow> Some (15 + n))
                    else None
         | [] \<Rightarrow> None)
      else None)"
proof -
  have l7: "length ''model: '' = 7" "length ''gemini-'' = 7" by simp_all
  have "model_param_pattern = lits ''model: '' @ ((OneOf quotes, Once) # lits ''gemini-'' @ model_tail)"
    by (simp add: model_param_pattern_def model_tail_def)
  then have "re_match model_param_pattern s =
     (if prefix ''model: '' s then
        (case re_match ((OneOf quotes, Once) # lits ''gemini-'' @ model_tail) (drop 7 s) of
           None \<Rightarrow> None | Some n \<Rightarrow> Some (7 + n)) else None)"
    using re_match_lits[of "''model: ''" "(OneOf quotes, Once) # lits ''gemini-'' @ model_tail" s]
    by (simp only: l7)
  moreover have "re_match ((OneOf quotes, Once) # lits ''gemini-'' @ model_tail) (q # t) =
      (if q \<in> set quotes \<and> prefix ''gemini-'' t
       then (case re_match model_tail (drop 7 t) of None \<Rightarrow> None | Some n \<Rightarrow> Some (8 + n)) else None)" for q t
    using re_match_lits[of "''gemini-''" model_tail t] unfolding l7
    by (auto split: option.splits)
  ultimately show ?thesis
    by (auto split: list.splits option.splits)
qed

lemma model_param_matchI:
  assumes "q \<in> set quotes" "q' \<in> set quotes" "lit \<noteq> []" "\<forall>c\<in>set lit. plain c"
    "\<forall>c\<in>set ws. is_space c" "rest = [] \<or> \<not> is_space (hd rest)"
  shows "re_match model_param_pattern (''model: '' @ q # ''gemini-'' @ lit @ q' # CHR '','' # ws @ rest)
           = Some (17 + length lit + length ws)"
proof -
  have np: "\<not> plain q'" using assms(2) by (auto simp: plain_def)
  have tw: "takeWhile plain (lit @ q' # CHR '','' # ws @ rest) = lit"
    using assms(4) np by (simp add: takeWhile_append2)
  have dw: "dropWhile plain (lit @ q' # CHR '','' # ws @ rest) = q' # CHR '','' # ws @ rest"
    using assms(4) np by (simp add: dropWhile_append2)
  have ts: "takeWhile is_space (ws @ rest) = ws"
    using assms(5,6) by (cases rest) (auto simp: takeWhile_append2)
  show ?thesis
    using assms(1,2,3) by (simp add: model_param_match model_tail_match tw dw ts)
qed

lemma model_param_matchD:
  assumes "re_match model_param_pattern s = Some n"
  shows "\<exists>q lit q' ws rest.
           s = ''model: '' @ q # ''gemini-'' @ lit @ q' # CHR '','' # ws @ rest \<and>
           q \<in> set quotes \<and> q' \<in> set quotes \<and> lit \<noteq> [] \<and> (\<forall>c\<in>set lit. plain c) \<and>
           (\<forall>c\<in>set ws. is_space c) \<and> (rest = [] \<or> \<not> is_space (hd rest)) \<and>
           n = 17 + length lit + length ws"
proof -
  from assms have p1: "prefix ''model: '' s" by (simp add: model_param_match split: if_splits)
  then obtain s1 where s: "s = ''model: '' @ s1" by (auto simp: prefix_def)
  from assms s obtain q t where s1: "s1 = q # t" and q: "q \<in> set quotes"
    and p2: "prefix ''gemini-'' t" and m2: "\<exists>m. re_match model_tail (drop 7 t) = Some m \<and> n = 15 + m"
    by (auto simp: model_param_match split: list.splits if_splits option.splits)
  from p2 obtain u where t: "t = ''gemini-'' @ u" by (auto simp: prefix_def)
  from m2 t obtain m where m: "re_match model_tail u = Some m" and n: "n = 15 + m" by auto
  let ?lit = "takeWhile plain u"
  from m have l0: "?lit \<noteq> []" by (simp add: model_tail_match split: if_splits)
  from m l0 obtain q' v where dw: "dropWhile plain u = q' # CHR '','' # v" and q': "q' \<in> set quotes"
    and mm: "m = length ?lit + 2 + length (takeWhile is_space v)"
    by (auto simp: model_tail_match split: list.splits if_splits)
  let ?ws = "takeWhile is_space v" and ?rest = "dropWhile is_space v"
  have u: "u = ?lit @ q' # CHR '','' # ?ws @ ?rest"
    using takeWhile_dropWhile_id[of plain u] dw by simp
  have "\<forall>c\<in>set ?lit. plain c" by (auto dest: set_takeWhileD)
  moreover have "\<forall>c\<in>set ?ws. is_space c" by (auto dest: set_takeWhileD)
  moreover have "?rest = [] \<or> \<not> is_space (hd ?rest)" by (metis hd_dropWhile)
  ultimately show ?thesis using s s1 t u q q' l0 n mm
    by (intro exI[of _ q] exI[of _ ?lit] exI[of _ q'] exI[of _ ?ws] exI[of _ ?rest]) simp
qed

lemma literal_quiet: "no_start_in old K \<Longrightarrow> quiet (literal_at old new) K b"
proof (induction K)
  case Nil
  show ?case by simp
next
  case (Cons x xs)
  from Cons.prems have "apart old (x # xs)" by simp
  from prefix_append_apart[OF this, of b] have "literal_at old new (x # xs @ b) = None"
    by (simp add: literal_at_def)
  with Cons show ?case by simp
qed

lemma literal_cannot_reach:
  assumes "no_start_in K old" "literal_at old new (a @ K @ b) = Some (m, r)"
  shows "m \<le> length a"
proof -
  from assms(2) have m: "m = length old" and p: "prefix old (a @ K @ b)"
    by (auto simp: literal_at_def split: if_splits)
  from p have "prefix old a \<or> (\<exists>us. old = a @ us \<and> prefix us (K @ b))"
    by (simp add: prefix_append)
  then show ?thesis
  proof
    assume "prefix old a"
    with m show ?thesis by (simp add: prefix_length_le)
  next
    assume "\<exists>us. old = a @ us \<and> prefix us (K @ b)"
    then obtain us where o: "old = a @ us" and pu: "prefix us (K @ b)" by blast
    show ?thesis
    proof (cases "us = []")
      case True
      with o m show ?thesis by simp
    next
      case False
      from o have "suffix us old" by (simp add: suffix_def)
      from no_start_in_suffix[OF assms(1) this False] have "apart us K" by (simp add: apart_sym)
      from prefix_append_apart[OF this] pu show ?thesis by blast
    qed
  qed
qed

lemma str_replace_keeps:
  assumes "clear_of old K" "sublist K s"
  shows "sublist K (str_replace old new s)"
  unfolding str_replace_def
proof (rule scan_keeps[where G="\<lambda>_. True"])
  fix b show "scan_replace (literal_at old new) (K @ b) = K @ scan_replace (literal_at old new) b"
    using assms(1) by (simp add: scan_quiet literal_quiet clear_of_def)
next
  fix a b n r assume "literal_at old new (a @ K @ b) = Some (n, r)"
  with assms(1) show "n \<le> length a" by (auto simp: clear_of_def dest: literal_cannot_reach)
qed (use assms in simp_all)

lemma replace_seq_keeps:
  "\<forall>(old, new)\<in>set tbl. clear_of old K \<Longrightarrow> sublist K s \<Longrightarrow> sublist K (replace_seq tbl s)"
proof (induction tbl arbitrary: s)
  case Nil
  then show ?case by (simp add: replace_seq_def)
next
  case (Cons p tbl)
  obtain old new where p: "p = (old, new)" by (cases p)
  from Cons.prems p have "sublist K (str_replace old new s)" by (auto intro: str_replace_keeps)
  with Cons.IH[of "str_replace old new s"] Cons.prems(1) p show ?case
    by (simp add: replace_seq_def)
qed

lemma str_replace_inserts:
  "old \<noteq> [] \<Longrightarrow> sublist old s \<Longrightarrow> sublist new (str_replace old new s)"
proof (induction s)
  case Nil
  then show ?case by simp
next
  case (Cons c cs)
  show ?case
  proof (cases "prefix old (c # cs)")
    case True
    with Cons.prems(1) show ?thesis by (simp add: str_replace_def literal_at_def)
  next
    case False
    with Cons.prems have "sublist old cs" by (simp add: sublist_Cons_right)
    with Cons.IH Cons.prems(1) have "sublist new (str_replace old new cs)" by blast
    with False show ?thesis by (simp add: str_replace_def literal_at_def sublist_Cons_right)
  qed
qed

lemma hd_drop_append: "n < length xs \<Longrightarrow> hd (drop n (xs @ ys)) \<in> set xs"
proof -
  assume n: "n < length xs"
  hence ne: "drop n xs \<noteq> []" by simp
  hence "hd (drop n xs) \<in> set (drop n xs)" by simp
  hence "hd (drop n xs) \<in> set xs" by (meson in_set_dropD)
  with n ne show ?thesis by simp
qed

text \<open>
  A match of the model pattern cannot reach into a text \<open>K\<close> that starts with a character
  the pattern takes only inside the model name and whose first quote or comma is not
  followed by a comma.
\<close>

lemma model_cannot_reach:
  assumes K: "K = h # K1 @ q0 # x # K2"
    and h: "plain h" "\<not> is_space h" "h \<notin> set ''model: gemini-''"
    and K1: "\<forall>c\<in>set K1. plain c" and q0: "\<not> plain q0" and x: "x \<noteq> CHR '',''"
    and m: "re_match model_param_pattern (a @ K @ b) = Some n"
  shows "n \<le> length a"
proof (rule ccontr)
  assume "\<not> n \<le> length a"
  hence lt: "length a < n" by simp
  from model_param_matchD[OF m] obtain q lit q' ws rest where
    s: "a @ K @ b = ''model: '' @ q # ''gemini-'' @ lit @ q' # CHR '','' # ws @ rest"
    and q: "q \<in> set quotes" and q': "q' \<in> set quotes" and lit: "\<forall>c\<in>set lit. plain c"
    and ws: "\<forall>c\<in>set ws. is_space c" and n: "n = 17 + length lit + length ws"
    by blast
  define A where "A = ''model: '' @ q # ''gemini-''"
  define Z where "Z = q' # CHR '','' # ws"
  have s': "a @ K @ b = A @ lit @ Z @ rest" using s by (simp add: A_def Z_def)
  have lA: "length A = 15" by (simp add: A_def)
  have lZ: "length Z = 2 + length ws" by (simp add: Z_def)
  have da: "drop (length a) (a @ K @ b) = K @ b" by simp
  have hh: "hd (drop (length a) (a @ K @ b)) = h" unfolding da K by simp
  have nq: "\<not> plain q" "\<not> plain q'" using q q' by (auto simp: plain_def)
  consider "length a < 15" | "15 \<le> length a" "length a < 15 + length lit"
    | "15 + length lit \<le> length a" by linarith
  then show False
  proof cases
    case 1
    hence "hd (drop (length a) (A @ (lit @ Z @ rest))) \<in> set A"
      by (intro hd_drop_append) (simp add: lA)
    with hh s' have "h \<in> set A" by simp
    with h nq show False by (auto simp: A_def)
  next
    case 2
    have "drop (length a) (A @ lit @ Z @ rest) = drop (length a - 15) lit @ Z @ rest"
      using 2 by (simp add: lA)
    with da s' have e: "K @ b = drop (length a - 15) lit @ Z @ rest" by simp
    have "dropWhile plain (K @ b) = q0 # x # K2 @ b"
      unfolding K using h(1) K1 q0 by (simp add: dropWhile_append2)
    moreover have "dropWhile plain (drop (length a - 15) lit @ Z @ rest) = Z @ rest"
      using lit nq by (subst dropWhile_append2) (auto dest: in_set_dropD simp: Z_def)
    ultimately show False using e x by (simp add: Z_def)
  next
    case 3
    have "drop (length a) (A @ lit @ Z @ rest) = drop (length a - 15 - length lit) (Z @ rest)"
      using 3 by (simp add: lA)
    moreover have "hd (drop (length a - 15 - length lit) (Z @ rest)) \<in> set Z"
      using 3 lt n by (intro hd_drop_append) (simp add: lZ)
    ultimately have "h \<in> set Z" using hh s' by simp
    with h nq ws show False by (auto simp: plain_def Z_def)
  qed
qed

lemma handle_quiet: "quiet (model_at) handle_primary b"
  by (simp add: handle_primary_def model_at_def regex_at_def model_param_match model_tail_match
      plain_def quotes_def)

lemma strip_keeps:
  assumes K: "K = h # mid @ qc # x # back"
    and h: "plain h" "\<not> is_space h" "h \<notin> set ''model: gemini-''"
    and K1: "\<forall>c\<in>set mid. plain c" and q0: "\<not> plain qc" and x: "x \<noteq> CHR '',''"
    and qu: "\<And>b. quiet model_at K b"
    and sl: "sublist K s"
  shows "sublist K (strip_model s)"
  unfolding strip_model_def re_sub_def model_at_def[symmetric]
proof (rule scan_keeps[where G="\<lambda>_. True"])
  fix b show "scan_replace model_at (K @ b) = K @ scan_replace model_at b"
    by (rule scan_quiet[OF qu])
next
  fix a b n r assume "model_at (a @ K @ b) = Some (n, r)"
  hence "re_match model_param_pattern (a @ K @ b) = Some n"
    by (auto simp: model_at_def regex_at_def)
  from model_cannot_reach[OF K h K1 q0 x this] show "n \<le> length a" .
qed (use sl in simp_all)

lemma strip_keeps_handle_primary: "sublist handle_primary s \<Longrightarrow> sublist handle_primary (strip_model s)"
  by (rule strip_keeps[where h="CHR ''c''" and mid="''onst model = ai.getGenerativeModel({ model: ''"
        and qc="CHR 0x22" and x="CHR ''g''", OF _ _ _ _ _ _ _ handle_quiet])
     (simp_all add: handle_primary_def plain_def quotes_def is_space_def)

lemma ctor_quiet: "quiet model_at handle_ctor b"
  by (simp add: handle_ctor_def model_at_def regex_at_def model_param_match model_tail_match
      plain_def quotes_def)

lemma strip_keeps_handle_ctor: "sublist handle_ctor s \<Longrightarrow> sublist handle_ctor (strip_model s)"
  by (rule strip_keeps[where h="CHR ''a''" and mid="''i.getGenerativeModel({ model: ''"
        and qc="CHR 0x22" and x="CHR ''g''", OF _ _ _ _ _ _ _ ctor_quiet])
     (simp_all add: handle_ctor_def plain_def quotes_def is_space_def)

lemma no_start_in_hd: "t \<noteq> [] \<Longrightarrow> hd t \<notin> set r \<Longrightarrow> no_start_in t r"
  by (induction r) (auto simp: apart_def prefix_def neq_Nil_conv)

lemma clear_of_hd: "t \<noteq> [] \<Longrightarrow> r \<noteq> [] \<Longrightarrow> hd t \<notin> set r \<Longrightarrow> hd r \<notin> set t \<Longrightarrow> clear_of t r"
  by (simp add: clear_of_def no_start_in_hd)

lemma enum_clear_handle: "\<forall>(old, new)\<in>set enum_table. clear_of old handle_primary"
  by (auto simp: enum_table_def handle_primary_def intro!: clear_of_hd)

lemma handle_primary_kept:
  assumes "sublist call_text d"
  shows "sublist handle_primary (transform d)"
proof -
  have "sublist handle_primary (rewrite_primary d)"
    unfolding rewrite_primary_def call_pattern_def re_sub_lits
    using assms by (intro str_replace_inserts) (simp_all add: call_text_def)
  moreover have "rewrite_variant (rewrite_primary d) = rewrite_primary d"
    using call_absent_primary[of d]
    by (simp add: rewrite_variant_def call_pattern_def re_sub_lits str_replace_absent_id)
  ultimately have "sublist handle_primary (normalize_enums (rewrite_variant (rewrite_primary d)))"
    unfolding normalize_enums_def by (simp add: replace_seq_keeps[OF enum_clear_handle])
  then show ?thesis
    unfolding transform_def by (rule strip_keeps_handle_primary)
qed

lemma sublist_chain: "sublist a b \<Longrightarrow> sublist b c \<Longrightarrow> sublist a c"
  unfolding sublist_def by (metis append.assoc)

lemma ctor_in_handle: "sublist handle_ctor handle_primary"
proof -
  have "handle_primary = ''const model = '' @ handle_ctor @
      '';\<newline>        const response = await model.generateContent(''"
    by (simp add: handle_primary_def handle_ctor_def)
  then show ?thesis by (metis sublist_appendI)
qed

lemma replace_seq_absent_id:
  "list_all (\<lambda>(old, new). \<not> sublist old d) tbl \<Longrightarrow> replace_seq tbl d = d"
  by (induction tbl) (auto simp: replace_seq_def str_replace_absent_id)

lemma transform_fixed:
  assumes "no_target d"
  shows "transform d = d"
proof -
  from assms have c: "\<not> sublist call_text d"
    and e: "list_all (\<lambda>(old, new). \<not> sublist old d) enum_table"
    and m: "matches_nowhere model_at d" by (simp_all add: no_target_def)
  have 1: "rewrite_primary d = d"
    unfolding rewrite_primary_def call_pattern_def re_sub_lits by (rule str_replace_absent_id[OF c])
  have 2: "rewrite_variant d = d"
    unfolding rewrite_variant_def call_pattern_def re_sub_lits by (rule str_replace_absent_id[OF c])
  have 3: "normalize_enums d = d"
    unfolding normalize_enums_def by (rule replace_seq_absent_id[OF e])
  have 4: "strip_model d = d"
    unfolding strip_model_def re_sub_def model_at_def[symmetric] by (rule scan_nowhere[OF m])
  show ?thesis by (simp add: transform_def 1 2 3 4)
qed

lemma scan_match_step:
  "f s = Some (n, r) \<Longrightarrow> 0 < n \<Longrightarrow> s \<noteq> [] \<Longrightarrow> scan_replace f s = r @ scan_replace f (drop n s)"
  by (cases s) auto

lemma str_replace_at_match:
  "old \<noteq> [] \<Longrightarrow> str_replace old new (old @ X) = new @ str_replace old new X"
  unfolding str_replace_def
  by (subst scan_match_step[where n="length old" and r=new]) (simp_all add: literal_at_def)

lemma strip_at_fragment:
  assumes "q \<in> set quotes" "q' \<in> set quotes" "lit \<noteq> []" "\<forall>c\<in>set lit. plain c"
    "\<forall>c\<in>set ws. is_space c" "rest = [] \<or> \<not> is_space (hd rest)"
  shows "scan_replace model_at (''model: '' @ q # ''gemini-'' @ lit @ q' # CHR '','' # ws @ rest)
           = scan_replace model_at rest"
proof -
  let ?F = "''model: '' @ q # ''gemini-'' @ lit @ q' # CHR '','' # ws @ rest"
  have m: "model_at ?F = Some (17 + length lit + length ws, [])"
    using model_param_matchI[OF assms] by (simp add: model_at_def regex_at_def)
  have d: "drop (17 + length lit + length ws) ?F = rest"
  proof -
    have "?F = (''model: '' @ q # ''gemini-'' @ lit @ q' # CHR '','' # ws) @ rest" by simp
    moreover have "length (''model: '' @ q # ''gemini-'' @ lit @ q' # CHR '','' # ws)
        = 17 + length lit + length ws" by simp
    ultimately show ?thesis by (metis append_eq_conv_conj)
  qed
  from scan_match_step[of model_at ?F, OF m] d show ?thesis by simp
qed

lemma rewrite_primary_eq: "rewrite_primary d = str_replace call_text handle_primary d"
  by (simp add: rewrite_primary_def call_pattern_def re_sub_lits)

lemma rewrite_variant_after: "rewrite_variant (rewrite_primary d) = rewrite_primary d"
  using call_absent_primary[of d]
  by (simp add: rewrite_variant_def call_pattern_def re_sub_lits str_replace_absent_id)



section \<open>The enum step as one pass\<close>

lemma first_match_single: "first_match [(old, new)] = literal_at old new"
  by (rule ext) (simp add: literal_at_def)

lemma first_match_append:
  "first_match (tbl @ tbl') t =
     (case first_match tbl t of Some x \<Rightarrow> Some x | None \<Rightarrow> first_match tbl' t)"
  by (induction tbl) auto

lemma first_matchD:
  "first_match tbl t = Some (m, r) \<Longrightarrow> \<exists>old. (old, r) \<in> set tbl \<and> prefix old t \<and> m = length old"
  by (induction tbl) (auto split: if_splits)

lemma first_match_None: "first_match tbl t = None \<longleftrightarrow> (\<forall>(old, new)\<in>set tbl. \<not> prefix old t)"
  by (induction tbl) (auto split: if_splits)

lemma first_match_quiet:
  "(\<forall>(t, r)\<in>set tbl. quiet (literal_at t r) K b) \<Longrightarrow> quiet (first_match tbl) K b"
proof (induction K)
  case Nil
  show ?case by simp
next
  case (Cons x xs)
  from Cons.prems have "\<forall>(t, r)\<in>set tbl. \<not> prefix t (x # xs @ b)"
    by (auto simp: literal_at_def split: if_splits)
  hence "first_match tbl (x # xs @ b) = None" by (simp add: first_match_None)
  moreover from Cons.prems have "\<forall>(t, r)\<in>set tbl. quiet (literal_at t r) xs b" by auto
  ultimately show ?case using Cons.IH by simp
qed

lemma str_replace_past:
  "no_start_in old r \<Longrightarrow> str_replace old new (r @ Y) = r @ str_replace old new Y"
  unfolding str_replace_def by (rule scan_quiet[OF literal_quiet])

lemma seq_step:
  assumes cl: "\<And>x y. G (x @ y) \<Longrightarrow> G y"
    and ne: "old \<noteq> []"
    and tb: "\<forall>(t, r)\<in>set tbl. t \<noteq> [] \<and> clear_of old r"
    and D: "\<And>rest. G (old @ rest) \<Longrightarrow> \<forall>(t, r)\<in>set tbl. quiet (literal_at t r) (tl old) rest"
  shows "G s \<Longrightarrow> str_replace old new (scan_replace (first_match tbl) s)
           = scan_replace (first_match (tbl @ [(old, new)])) s"
proof (induction s rule: length_induct)
  case (1 s)
  let ?f = "first_match tbl" and ?g = "first_match (tbl @ [(old, new)])"
  have g: "?g t = (case ?f t of Some x \<Rightarrow> Some x | None \<Rightarrow> literal_at old new t)" for t
    by (simp add: first_match_append literal_at_def split: option.splits)
  have rc: "repl_clear ?f old"
    unfolding repl_clear_def
  proof (intro allI impI)
    fix t m r assume "?f t = Some (m, r)"
    from first_matchD[OF this] tb show "0 < m \<and> clear_of old r" by fastforce
  qed
  show ?case
  proof (cases s)
    case Nil
    have "?f [] = None" using tb by (auto simp: first_match_None)
    with Nil ne show ?thesis by (simp add: g literal_at_def str_replace_def)
  next
    case (Cons c cs)
    show ?thesis
    proof (cases "?f s")
      case (Some p)
      obtain m r where p: "p = (m, r)" by (cases p)
      from first_matchD[of tbl s m r] Some p obtain t where
        t: "(t, r) \<in> set tbl" "prefix t s" "m = length t" by auto
      with tb have m0: "0 < m" and ns: "no_start_in old r" by (auto simp: clear_of_def)
      have "s = take m s @ drop m s" by simp
      with "1.prems" have "G (take m s @ drop m s)" by metis
      hence Gd: "G (drop m s)" by (rule cl)
      have "length (drop m s) < length s" using m0 Cons by simp
      with "1.IH" Gd have IH: "str_replace old new (scan_replace ?f (drop m s))
           = scan_replace ?g (drop m s)" by blast
      have f: "scan_replace ?f s = r @ scan_replace ?f (drop m s)"
        using Some p m0 Cons by (intro scan_match_step) auto
      have "?g s = Some (m, r)" using Some p by (simp add: g)
      hence "scan_replace ?g s = r @ scan_replace ?g (drop m s)"
        using m0 Cons by (intro scan_match_step) auto
      with f IH str_replace_past[OF ns] show ?thesis by simp
    next
      case None
      show ?thesis
      proof (cases "prefix old s")
        case True
        then obtain rest where s: "s = old @ rest" by (auto simp: prefix_def)
        from "1.prems" s have Gr: "G rest" using cl by blast
        obtain x xs where o: "old = x # xs" using ne by (cases old) auto
        from D[of rest] "1.prems" s have "\<forall>(t, r)\<in>set tbl. quiet (literal_at t r) (tl old) rest"
          by simp
        hence "quiet ?f xs rest" using first_match_quiet[of tbl xs rest] o by simp
        with None s o have "quiet ?f old rest" by simp
        hence f: "scan_replace ?f s = old @ scan_replace ?f rest"
          unfolding s by (rule scan_quiet)
        have "length rest < length s" using s ne by simp
        with "1.IH" Gr have IH: "str_replace old new (scan_replace ?f rest) = scan_replace ?g rest"
          by blast
        have "?g s = Some (length old, new)" using None True by (simp add: g literal_at_def)
        hence "scan_replace ?g s = new @ scan_replace ?g (drop (length old) s)"
          using ne Cons by (intro scan_match_step) auto
        hence "scan_replace ?g s = new @ scan_replace ?g rest" by (simp add: s)
        with f IH str_replace_at_match[OF ne] show ?thesis by simp
      next
        case False
        from "1.prems" Cons have Gc: "G cs" using cl[of "[c]" cs] by simp
        from "1.IH" Gc Cons have IH: "str_replace old new (scan_replace ?f cs) = scan_replace ?g cs"
          by simp
        have f: "scan_replace ?f s = c # scan_replace ?f cs" using None Cons by simp
        have "\<not> prefix old (scan_replace ?f s)"
          using prefix_through_scan[OF rc suffix_order.refl ne] False by blast
        hence "literal_at old new (c # scan_replace ?f cs) = None"
          unfolding f by (simp add: literal_at_def)
        hence l: "str_replace old new (c # scan_replace ?f cs)
            = c # str_replace old new (scan_replace ?f cs)"
          by (simp add: str_replace_def)
        have "?g s = None" using None False by (simp add: g literal_at_def)
        hence "scan_replace ?g s = c # scan_replace ?g cs" using Cons by simp
        with f l IH show ?thesis by simp
      qed
    qed
  qed
qed

lemma scan_no_matcher: "(\<And>t. f t = None) \<Longrightarrow> scan_replace f s = s"
  by (induction s) auto

lemma replace_seq_snoc: "replace_seq (ps @ [(old, new)]) s = str_replace old new (replace_seq ps s)"
  by (simp add: replace_seq_def)

lemma replace_seq_one_pass:
  assumes cl: "\<And>x y. G (x @ y) \<Longrightarrow> G y" and G: "G s"
  shows "(\<And>tbl old new after. ps = tbl @ (old, new) # after \<Longrightarrow>
            old \<noteq> [] \<and> (\<forall>(t, r)\<in>set tbl. t \<noteq> [] \<and> clear_of old r) \<and>
            (\<forall>rest. G (old @ rest) \<longrightarrow> (\<forall>(t, r)\<in>set tbl. quiet (literal_at t r) (tl old) rest)))
         \<Longrightarrow> replace_seq ps s = scan_replace (first_match ps) s"
proof (induction ps rule: rev_induct)
  case Nil
  show ?case by (simp add: replace_seq_def scan_no_matcher)
next
  case (snoc p ps)
  obtain old new where p: "p = (old, new)" by (cases p)
  have J: "old \<noteq> [] \<and> (\<forall>(t, r)\<in>set ps. t \<noteq> [] \<and> clear_of old r) \<and>
            (\<forall>rest. G (old @ rest) \<longrightarrow> (\<forall>(t, r)\<in>set ps. quiet (literal_at t r) (tl old) rest))"
    using snoc.prems[of ps old new "[]"] p by simp
  have "replace_seq ps s = scan_replace (first_match ps) s"
  proof (rule snoc.IH)
    fix tbl old' new' after assume "ps = tbl @ (old', new') # after"
    hence "ps @ [p] = tbl @ (old', new') # (after @ [p])" by simp
    from snoc.prems[OF this]
    show "old' \<noteq> [] \<and> (\<forall>(t, r)\<in>set tbl. t \<noteq> [] \<and> clear_of old' r) \<and>
            (\<forall>rest. G (old' @ rest) \<longrightarrow> (\<forall>(t, r)\<in>set tbl. quiet (literal_at t r) (tl old') rest))" .
  qed
  moreover have "str_replace old new (scan_replace (first_match ps) s)
           = scan_replace (first_match (ps @ [(old, new)])) s"
  proof (rule seq_step[where G=G])
    show "G (x @ y) \<Longrightarrow> G y" for x y by (rule cl)
    show "old \<noteq> []" using J by blast
    show "\<forall>(t, r)\<in>set ps. t \<noteq> [] \<and> clear_of old r" using J by blast
    show "G (old @ rest) \<Longrightarrow> \<forall>(t, r)\<in>set ps. quiet (literal_at t r) (tl old) rest" for rest
      using J by blast
    show "G s" by (rule G)
  qed
  ultimately show ?case by (simp add: p replace_seq_snoc)
qed

lemma enum_nonempty: "(old, new) \<in> set enum_table \<Longrightarrow> old \<noteq> [] \<and> new \<noteq> []"
  by (auto simp: enum_table_def)

lemma enum_clear: "(old, new) \<in> set enum_table \<Longrightarrow> (t, r) \<in> set enum_table \<Longrightarrow> clear_of old r"
proof -
  have "list_all (\<lambda>(old, new). list_all (\<lambda>(t, r). clear_of old r) enum_table) enum_table"
    by code_simp
  then show "(old, new) \<in> set enum_table \<Longrightarrow> (t, r) \<in> set enum_table \<Longrightarrow> clear_of old r"
    by (fastforce simp: list_all_iff)
qed

lemma enum_apart:
  "(old, new) \<in> set enum_table \<Longrightarrow> (t, r) \<in> set enum_table \<Longrightarrow> (old, new) \<noteq> (t, r) \<Longrightarrow> apart old t"
proof -
  have "list_all (\<lambda>(old, new). list_all (\<lambda>(t, r). (old, new) = (t, r) \<or> apart old t) enum_table)
          enum_table"
    by code_simp
  then show "(old, new) \<in> set enum_table \<Longrightarrow> (t, r) \<in> set enum_table \<Longrightarrow> (old, new) \<noteq> (t, r) \<Longrightarrow> apart old t"
    by (fastforce simp: list_all_iff)
qed

lemma overlap_free_suffix: "overlap_free (x @ y) \<Longrightarrow> overlap_free y"
  by (auto simp: overlap_free_def sublist_append)

lemma object_overlap:
  assumes "overlap_free (''Type.OBJECT'' @ rest)"
  shows "\<not> prefix (''ype.'' @ z) rest"
proof
  assume "prefix (''ype.'' @ z) rest"
  then obtain w where "rest = (''ype.'' @ z) @ w" by (auto simp: prefix_def)
  hence "''Type.OBJECT'' @ rest = ''Type.OBJECType.'' @ (z @ w)" by simp
  hence "sublist ''Type.OBJECType.'' (''Type.OBJECT'' @ rest)" by (metis sublist_append_rightI)
  with assms show False by (simp add: overlap_free_def)
qed

lemma enum_inner_quiet_other:
  assumes "(old, new) \<in> set enum_table" "(t, r) \<in> set enum_table" "old \<noteq> ''Type.OBJECT''"
  shows "quiet (literal_at t r) (tl old) rest"
proof -
  have "list_all (\<lambda>(old, new). old = ''Type.OBJECT'' \<or>
          list_all (\<lambda>(t, r). no_start_in t (tl old)) enum_table) enum_table"
    by code_simp
  with assms have "no_start_in t (tl old)" by (fastforce simp: list_all_iff)
  then show ?thesis by (rule literal_quiet)
qed

lemma enum_inner_quiet_object:
  assumes "(t, r) \<in> set enum_table" "overlap_free (''Type.OBJECT'' @ rest)"
  shows "quiet (literal_at t r) (tl ''Type.OBJECT'') rest"
  using assms(1) object_overlap[OF assms(2)]
  by (auto simp: enum_table_def literal_at_def)

lemma enum_inner_quiet:
  assumes "(old, new) \<in> set enum_table" "(t, r) \<in> set enum_table" "overlap_free (old @ rest)"
  shows "quiet (literal_at t r) (tl old) rest"
  using assms enum_inner_quiet_other enum_inner_quiet_object by (cases "old = ''Type.OBJECT''") blast+

lemma enum_object_first:
  assumes "enum_table = tbl @ (old, new) # after" "old = ''Type.OBJECT''"
  shows "tbl = []"
proof (cases tbl)
  case Nil
  then show ?thesis .
next
  case (Cons p tbl')
  with arg_cong[OF assms(1), of tl] have "tl enum_table = tbl' @ (old, new) # after" by simp
  hence "(old, new) \<in> set (tl enum_table)" by simp
  with assms(2) show ?thesis by (simp add: enum_table_def)
qed

lemma normalize_one_pass: "normalize_enums d = replace_one_pass enum_table d"
  unfolding normalize_enums_def replace_one_pass_def
proof (rule replace_seq_one_pass[where G="\<lambda>_. True"])
  fix tbl old new after
  assume sp: "enum_table = tbl @ (old, new) # after"
  from arg_cong[OF sp, of set]
  have mem: "(old, new) \<in> set enum_table" and sub: "set tbl \<subseteq> set enum_table" by auto
  have "quiet (literal_at t r) (tl old) rest" if "(t, r) \<in> set tbl" for t r rest
  proof (cases "old = ''Type.OBJECT''")
    case True
    from enum_object_first[OF sp True] that show ?thesis by simp
  next
    case False
    from enum_inner_quiet_other[OF mem _ False] that sub show ?thesis by blast
  qed
  moreover have "t \<noteq> [] \<and> clear_of old r" if "(t, r) \<in> set tbl" for t r
    using that sub enum_nonempty[of t r] enum_clear[OF mem, of t r] by blast
  ultimately show "old \<noteq> [] \<and> (\<forall>(t, r)\<in>set tbl. t \<noteq> [] \<and> clear_of old r) \<and>
     (\<forall>rest. True \<longrightarrow> (\<forall>(t, r)\<in>set tbl. quiet (literal_at t r) (tl old) rest))"
    using enum_nonempty[OF mem] by blast
qed simp_all

lemma enum_repl_clear: "(old, new) \<in> set enum_table \<Longrightarrow> set ps \<subseteq> set enum_table \<Longrightarrow> repl_clear (first_match ps) old"
  unfolding repl_clear_def
proof (intro allI impI)
  fix t m r assume a: "(old, new) \<in> set enum_table" "set ps \<subseteq> set enum_table"
    "first_match ps t = Some (m, r)"
  from first_matchD[OF a(3)] obtain u where u: "(u, r) \<in> set ps" "m = length u" by blast
  with a(2) have "(u, r) \<in> set enum_table" by blast
  with enum_nonempty[of u r] enum_clear[OF a(1), of u r] u(2) show "0 < m \<and> clear_of old r" by simp
qed

lemma enum_absent:
  assumes "(old, new) \<in> set enum_table"
  shows "\<not> sublist old (replace_one_pass enum_table d)"
  unfolding replace_one_pass_def
proof (rule scan_absent[OF enum_repl_clear[OF assms subset_refl]])
  show "old \<noteq> []" using enum_nonempty[OF assms] by simp
next
  fix t assume "prefix old t"
  with assms show "first_match enum_table t \<noteq> None" by (auto simp: first_match_None)
qed

lemma first_match_same:
  assumes "set ps = set enum_table"
  shows "first_match ps t = first_match enum_table t"
proof (cases "first_match ps t")
  case None
  then show ?thesis using assms by (metis first_match_None)
next
  case (Some p)
  obtain m r where p: "p = (m, r)" by (cases p)
  from first_matchD[of ps t m r] Some p obtain old where
    o: "(old, r) \<in> set ps" "prefix old t" "m = length old" by auto
  with assms have oe: "(old, r) \<in> set enum_table" by simp
  with o(2) have "first_match enum_table t \<noteq> None" by (auto simp: first_match_None)
  then obtain m' r' where e: "first_match enum_table t = Some (m', r')" by auto
  from first_matchD[OF e] obtain old' where
    o': "(old', r') \<in> set enum_table" "prefix old' t" "m' = length old'" by auto
  have "(old, r) = (old', r')"
  proof (rule ccontr)
    assume "(old, r) \<noteq> (old', r')"
    from enum_apart[OF oe o'(1) this] o(2) o'(2) show False
      by (auto simp: apart_def dest: prefix_same_cases)
  qed
  with Some p e o(3) o'(3) show ?thesis by simp
qed

lemma replace_any_order:
  assumes "set ps = set enum_table" "overlap_free d"
  shows "replace_seq ps d = normalize_enums d"
proof -
  have "replace_seq ps d = scan_replace (first_match ps) d"
  proof (rule replace_seq_one_pass[where G=overlap_free])
    fix tbl old new after
    assume sp: "ps = tbl @ (old, new) # after"
    with assms(1) have mem: "(old, new) \<in> set enum_table" and sub: "set tbl \<subseteq> set enum_table"
      by (metis in_set_conv_decomp, metis Un_iff set_append subsetI)
    have "quiet (literal_at t r) (tl old) rest"
      if "(t, r) \<in> set tbl" "overlap_free (old @ rest)" for t r rest
      using enum_inner_quiet[OF mem _ that(2)] that(1) sub by blast
    moreover have "t \<noteq> [] \<and> clear_of old r" if "(t, r) \<in> set tbl" for t r
      using that sub enum_nonempty[of t r] enum_clear[OF mem, of t r] by blast
    ultimately show "old \<noteq> [] \<and> (\<forall>(t, r)\<in>set tbl. t \<noteq> [] \<and> clear_of old r) \<and>
       (\<forall>rest. overlap_free (old @ rest) \<longrightarrow> (\<forall>(t, r)\<in>set tbl. quiet (literal_at t r) (tl old) rest))"
      using enum_nonempty[OF mem] by blast
  qed (use assms(2) overlap_free_suffix in blast)+
  also have "first_match ps = first_match enum_table"
    by (rule ext) (rule first_match_same[OF assms(1)])
  finally show ?thesis by (simp add: normalize_one_pass replace_one_pass_def)
qed

lemma quiet_drop: "quiet f K b \<Longrightarrow> k < length K \<Longrightarrow> f (drop k K @ b) = None"
proof (induction K arbitrary: k)
  case Nil
  then show ?case by simp
next
  case (Cons x xs)
  then show ?case by (cases k) auto
qed

lemma enum_not_destroyed:
  assumes o: "(old, new) \<in> set enum_table" and t: "(t, r) \<in> set enum_table"
    and ne: "(old, new) \<noteq> (t, r)" and G: "overlap_free d" and sl: "sublist t d"
  shows "sublist t (str_replace old new d)"
  unfolding str_replace_def
proof (rule scan_keeps[where G=overlap_free])
  show "overlap_free (x @ y) \<Longrightarrow> overlap_free y" for x y by (rule overlap_free_suffix)
  show "overlap_free d" by (rule G)
  show "sublist t d" by (rule sl)
next
  fix b assume Gb: "overlap_free (t @ b)"
  obtain x xs where tx: "t = x # xs" using enum_nonempty[OF t] by (cases t) auto
  from enum_apart[OF o t ne] have "literal_at old new (t @ b) = None"
    using prefix_append_apart[of old t b] by (simp add: literal_at_def)
  moreover have "quiet (literal_at old new) (tl t) b" by (rule enum_inner_quiet[OF t o Gb])
  ultimately have "quiet (literal_at old new) t b" using tx by simp
  then show "scan_replace (literal_at old new) (t @ b) = t @ scan_replace (literal_at old new) b"
    by (rule scan_quiet)
next
  fix a b m r'
  assume Ga: "overlap_free (a @ t @ b)" and m: "literal_at old new (a @ t @ b) = Some (m, r')"
  from m have ml: "m = length old" and p: "prefix old (a @ t @ b)"
    by (auto simp: literal_at_def split: if_splits)
  show "m \<le> length a"
  proof (rule ccontr)
    assume "\<not> m \<le> length a"
    hence lt: "length a < length old" using ml by simp
    from p obtain rest where e: "a @ t @ b = old @ rest" by (auto simp: prefix_def)
    have d: "drop (length a) old @ rest = t @ b"
      using arg_cong[OF e, of "drop (length a)"] lt by simp
    show False
    proof (cases a)
      case Nil
      with p enum_apart[OF o t ne] prefix_append_apart[of old t b] show False by simp
    next
      case (Cons c a')
      from Ga e have "overlap_free (old @ rest)" by simp
      from enum_inner_quiet[OF o t this] have q: "quiet (literal_at t r) (tl old) rest" .
      have "length a' < length (tl old)" using lt Cons by simp
      from quiet_drop[OF q this] have "literal_at t r (drop (length a') (tl old) @ rest) = None" .
      moreover have "drop (length a') (tl old) = drop (length a) old"
        using Cons by (simp add: drop_Suc)
      ultimately show False using d by (simp add: literal_at_def)
    qed
  qed
qed

lemma enum_not_created:
  assumes "(old, new) \<in> set enum_table" "(t, r) \<in> set enum_table" "sublist t (str_replace old new d)"
  shows "sublist t d"
proof -
  from enum_nonempty[OF assms(1)] have 1: "old \<noteq> []" by simp
  from enum_nonempty[OF assms(2)] have 2: "t \<noteq> []" by simp
  from str_replace_no_create[OF 1 2 enum_clear[OF assms(2,1)] assms(3)] show ?thesis .
qed

lemma replace_seq_no_create:
  "\<forall>(old, new)\<in>set tbl. old \<noteq> [] \<and> clear_of tk new \<Longrightarrow> tk \<noteq> [] \<Longrightarrow>
   sublist tk (replace_seq tbl s) \<Longrightarrow> sublist tk s"
proof (induction tbl arbitrary: s)
  case Nil
  then show ?case by (simp add: replace_seq_def)
next
  case (Cons p tbl)
  obtain old new where p: "p = (old, new)" by (cases p)
  from Cons.prems(3) p have "sublist tk (replace_seq tbl (str_replace old new s))"
    by (simp add: replace_seq_def)
  with Cons.IH Cons.prems(1,2) have sl: "sublist tk (str_replace old new s)" by simp
  from Cons.prems(1) p have "old \<noteq> []" "clear_of tk new" by simp_all
  from str_replace_no_create[OF this(1) Cons.prems(2) this(2) sl] show ?case .
qed

lemma call_clear_enum: "\<forall>(old, new)\<in>set enum_table. old \<noteq> [] \<and> clear_of call_text new"
proof -
  have "list_all (\<lambda>(old, new). old \<noteq> [] \<and> clear_of call_text new) enum_table" by code_simp
  then show ?thesis by (simp add: list_all_iff)
qed

lemma call_absent_steps: "\<not> sublist call_text (rewrite_and_normalize d)"
proof
  assume "sublist call_text (rewrite_and_normalize d)"
  hence "sublist call_text (rewrite_primary d)"
    unfolding rewrite_and_normalize_def rewrite_variant_after normalize_enums_def
    by (rule replace_seq_no_create[OF call_clear_enum, rotated]) (simp add: call_text_def)
  with call_absent_primary show False by blast
qed

lemma tokens_absent_steps:
  "list_all (\<lambda>(old, new). \<not> sublist old (rewrite_and_normalize d)) enum_table"
  unfolding rewrite_and_normalize_def normalize_one_pass
  by (auto simp: list_all_iff dest: enum_absent)

lemma steps_idem: "rewrite_and_normalize (rewrite_and_normalize d) = rewrite_and_normalize d"
proof -
  let ?s = "rewrite_and_normalize d"
  have 1: "rewrite_primary ?s = ?s"
    unfolding rewrite_primary_eq by (rule str_replace_absent_id[OF call_absent_steps])
  have 2: "rewrite_variant ?s = ?s"
    unfolding rewrite_variant_def call_pattern_def re_sub_lits
    by (rule str_replace_absent_id[OF call_absent_steps])
  have 3: "normalize_enums ?s = ?s"
    unfolding normalize_enums_def by (rule replace_seq_absent_id[OF tokens_absent_steps])
  show ?thesis by (subst (1) rewrite_and_normalize_def) (simp add: 1 2 3)
qed

section \<open>The claims\<close>

subsection \<open>Claims about the stripping step\<close>

text \<open>
  Claim C2, as amended. The stripping step scans from the left and removes each
  fragment \<^verbatim>\<open>model: \<close>, a quote, \<^verbatim>\<open>gemini-\<close>, one or more characters other than quotes and
  commas, a quote and a comma, together with the whitespace behind the comma. When no
  match begins in the text \<open>pre\<close> before such a fragment, \<open>pre\<close> is kept as it is,
  whitespace in front of the fragment included, and the scan goes on with the sibling
  arguments \<open>rest\<close>. The comma is required: where the closing quote is followed by
  another character, the pattern does not match and the fragment stays.
\<close>

theorem strip_model_fragment:
  "q \<in> set quotes \<and> q' \<in> set quotes \<and> lit \<noteq> [] \<and> (\<forall>c\<in>set lit. c \<notin> set (quotes @ '','')) \<longrightarrow>
   ((\<forall>c\<in>set ws. is_space c) \<and> (rest = [] \<or> \<not> is_space (hd rest)) \<and>
    quiet model_at pre (''model: '' @ q # ''gemini-'' @ lit @ q' # CHR '','' # ws @ rest) \<longrightarrow>
      strip_model (pre @ ''model: '' @ q # ''gemini-'' @ lit @ q' # CHR '','' # ws @ rest)
        = pre @ strip_model rest) \<and>
   (x \<noteq> CHR '','' \<longrightarrow>
      re_match model_param_pattern (''model: '' @ q # ''gemini-'' @ lit @ q' # x # rest) = None)"
proof (intro impI conjI; elim conjE)
  assume a: "q \<in> set quotes" "q' \<in> set quotes" "lit \<noteq> []" "\<forall>c\<in>set lit. c \<notin> set (quotes @ '','')"
    and b: "\<forall>c\<in>set ws. is_space c" "rest = [] \<or> \<not> is_space (hd rest)"
    and qu: "quiet model_at pre (''model: '' @ q # ''gemini-'' @ lit @ q' # CHR '','' # ws @ rest)"
  from a(4) have pl: "\<forall>c\<in>set lit. plain c" by (simp add: plain_def)
  show "strip_model (pre @ ''model: '' @ q # ''gemini-'' @ lit @ q' # CHR '','' # ws @ rest)
        = pre @ strip_model rest"
    unfolding strip_model_def re_sub_def model_at_def[symmetric]
    using scan_quiet[OF qu] strip_at_fragment[OF a(1,2,3) pl b] by simp
next
  assume a: "q \<in> set quotes" "q' \<in> set quotes" "lit \<noteq> []" "\<forall>c\<in>set lit. c \<notin> set (quotes @ '','')"
    and x: "x \<noteq> CHR '',''"
  from a(4) have pl: "\<forall>c\<in>set lit. plain c" by (simp add: plain_def)
  have np: "\<not> plain q'" using a(2) by (auto simp: plain_def)
  have tw: "takeWhile plain (lit @ q' # x # rest) = lit"
    using pl np by (simp add: takeWhile_append2)
  have dw: "dropWhile plain (lit @ q' # x # rest) = q' # x # rest"
    using pl np by (simp add: dropWhile_append2)
  show "re_match model_param_pattern (''model: '' @ q # ''gemini-'' @ lit @ q' # x # rest) = None"
    using a(1,3) x by (simp add: model_param_match model_tail_match tw dw)
qed

theorem strip_model_fragment_witness:
  \<open>strip_model ''generateContent({ model: "gemini-2.0-flash-exp", contents: p })''
     = ''generateContent({ contents: p })'' \<and>
   re_match model_param_pattern ''model: "gemini-2.0-flash-exp" contents: p })'' = None\<close>
proof -
  have 1: "CHR 0x22 \<in> set quotes \<and> CHR 0x22 \<in> set quotes \<and> ''2.0-flash-exp'' \<noteq> [] \<and>
      (\<forall>c\<in>set ''2.0-flash-exp''. c \<notin> set (quotes @ '',''))" by code_simp
  have 2: "(\<forall>c\<in>set '' ''. is_space c) \<and> (''contents: p })'' = [] \<or> \<not> is_space (hd ''contents: p })'')) \<and>
     quiet model_at ''generateContent({ ''
       (''model: '' @ CHR 0x22 # ''gemini-'' @ ''2.0-flash-exp'' @ CHR 0x22 # CHR '','' # '' '' @ ''contents: p })'')"
    by code_simp
  have 3: "strip_model ''contents: p })'' = ''contents: p })''" by code_simp
  have 4: "CHR '' '' \<noteq> CHR '',''" by simp
  from strip_model_fragment[of "CHR 0x22" "CHR 0x22" "''2.0-flash-exp''" "'' ''" "''contents: p })''"
      "''generateContent({ ''" "CHR '' ''"] 1 2 4
  have "strip_model (''generateContent({ '' @ ''model: '' @ CHR 0x22 # ''gemini-'' @ ''2.0-flash-exp'' @ CHR 0x22 # CHR '','' # '' '' @ ''contents: p })'')
        = ''generateContent({ '' @ strip_model ''contents: p })''"
    and "re_match model_param_pattern (''model: '' @ CHR 0x22 # ''gemini-'' @ ''2.0-flash-exp'' @ CHR 0x22 # CHR '' '' # ''contents: p })'') = None"
    by blast+
  with 3 show ?thesis by simp
qed

text \<open>
  A model argument that closes the argument list has no comma behind it; the step
  leaves it where it is, so the comma is not optional.
\<close>

theorem strip_model_optional_comma_counterexample:
  \<open>strip_model ''generateContent({ model: "gemini-pro" })'' = ''generateContent({ model: "gemini-pro" })''\<close>
  by code_simp

text \<open>
  Claim C10. The fragment \<^verbatim>\<open>model: "gemini-2.0-flash-exp"\<close> inside the handle constructor
  is followed by a space and a brace, not by a comma, so the stripping pattern does
  not match it; the stripping step keeps every occurrence of the handle constructor,
  and the output of the pipeline holds the constructor, with its model identifier,
  whenever the input holds the call pattern.
\<close>

theorem handle_model_kept:
  \<open>re_match model_param_pattern (''model: "gemini-2.0-flash-exp" }'' @ rest) = None \<and>
   (sublist handle_ctor s \<longrightarrow> sublist handle_ctor (strip_model s)) \<and>
   (sublist call_text d \<longrightarrow> sublist handle_ctor (transform d))\<close>
proof (intro conjI impI)
  show \<open>re_match model_param_pattern (''model: "gemini-2.0-flash-exp" }'' @ rest) = None\<close>
    by (simp add: model_param_match model_tail_match plain_def quotes_def)
next
  assume "sublist handle_ctor s"
  then show "sublist handle_ctor (strip_model s)" by (rule strip_keeps_handle_ctor)
next
  assume "sublist call_text d"
  from handle_primary_kept[OF this] ctor_in_handle
  show "sublist handle_ctor (transform d)" by (rule sublist_chain[rotated])
qed

theorem handle_model_kept_witness:
  \<open>sublist handle_ctor (strip_model
      ''model: "gemini-pro", ai.getGenerativeModel({ model: "gemini-2.0-flash-exp" })'') \<and>
   sublist handle_ctor (transform ''const response = await ai.models.generateContent(p)'')\<close>
proof -
  have 1: \<open>sublist handle_ctor
      ''model: "gemini-pro", ai.getGenerativeModel({ model: "gemini-2.0-flash-exp" })''\<close>
    by code_simp
  have 2: "sublist call_text ''const response = await ai.models.generateContent(p)''"
    by code_simp
  from handle_model_kept[of "[]"
      \<open>''model: "gemini-pro", ai.getGenerativeModel({ model: "gemini-2.0-flash-exp" })''\<close>
      "''const response = await ai.models.generateContent(p)''"] 1 2
  show ?thesis by blast
qed

subsection \<open>Claims about the enum step\<close>

text \<open>
  Claim C5, as amended. The five \<^verbatim>\<open>replace\<close> statements together do what one pass from
  the left does that replaces each token occurrence it reaches by the quoted string of
  that token and copies every other character; an occurrence that shares a character
  with an occurrence replaced before it is not replaced. No token is left in the
  output.
\<close>

theorem normalize_enums_one_pass:
  "normalize_enums d = replace_one_pass enum_table d \<and>
   list_all (\<lambda>(old, new). \<not> sublist old (normalize_enums d)) enum_table"
  by (auto simp: normalize_one_pass list_all_iff dest: enum_absent)

theorem normalize_enums_one_pass_witness:
  \<open>normalize_enums ''{ type: Type.OBJECT, items: Type.STRING }''
     = ''{ type: "object", items: "string" }''\<close>
proof -
  have \<open>replace_one_pass enum_table ''{ type: Type.OBJECT, items: Type.STRING }''
     = ''{ type: "object", items: "string" }''\<close> by code_simp
  with normalize_enums_one_pass[of "''{ type: Type.OBJECT, items: Type.STRING }''"]
  show ?thesis by simp
qed

text \<open>
  In \<^verbatim>\<open>Type.OBJECType.ARRAY\<close> the token \<^verbatim>\<open>Type.ARRAY\<close> occurs, sharing its first character
  with the occurrence of \<^verbatim>\<open>Type.OBJECT\<close>; it is not replaced by \<^verbatim>\<open>"array"\<close>.
\<close>

theorem normalize_enums_overlap_counterexample:
  \<open>sublist ''Type.ARRAY'' ''Type.OBJECType.ARRAY'' \<and>
   normalize_enums ''Type.OBJECType.ARRAY'' = ''"object"ype.ARRAY'' \<and>
   \<not> sublist ''"array"'' (normalize_enums ''Type.OBJECType.ARRAY'')\<close>
  by code_simp

text \<open>
  Claim C8, as amended. On a document in which \<^verbatim>\<open>Type.OBJECType.\<close> does not occur, the
  five substitutions give the output of the script in whatever order they are
  applied, and no substitution removes an occurrence of another token. On every
  document, no substitution brings about an occurrence of a token that was not there.
\<close>

theorem enum_order_irrelevant:
  "(overlap_free d \<and> mset ps = mset enum_table \<longrightarrow> replace_seq ps d = normalize_enums d) \<and>
   ((old, new) \<in> set enum_table \<and> (t, r) \<in> set enum_table \<and>
      sublist t (str_replace old new d) \<longrightarrow> sublist t d) \<and>
   (overlap_free d \<and> (old, new) \<in> set enum_table \<and> (t, r) \<in> set enum_table \<and>
      (old, new) \<noteq> (t, r) \<and> sublist t d \<longrightarrow> sublist t (str_replace old new d))"
proof (intro conjI impI; elim conjE)
  assume "overlap_free d" "mset ps = mset enum_table"
  from replace_any_order[OF mset_eq_setD[OF this(2)] this(1)]
  show "replace_seq ps d = normalize_enums d" .
next
  assume "(old, new) \<in> set enum_table" "(t, r) \<in> set enum_table"
    "sublist t (str_replace old new d)"
  then show "sublist t d" by (rule enum_not_created)
next
  assume a: "overlap_free d" "(old, new) \<in> set enum_table" "(t, r) \<in> set enum_table"
    "(old, new) \<noteq> (t, r)" "sublist t d"
  show "sublist t (str_replace old new d)"
    by (rule enum_not_destroyed[OF a(2) a(3) a(4) a(1) a(5)])
qed

theorem enum_order_irrelevant_witness:
  \<open>replace_seq [(''Type.BOOLEAN'', ''"boolean"''), (''Type.INTEGER'', ''"integer"''),
      (''Type.ARRAY'', ''"array"''), (''Type.STRING'', ''"string"''),
      (''Type.OBJECT'', ''"object"'')] ''a: Type.OBJECT, b: Type.ARRAY''
    = normalize_enums ''a: Type.OBJECT, b: Type.ARRAY'' \<and>
   sublist ''Type.ARRAY'' (str_replace ''Type.OBJECT'' ''"object"'' ''a: Type.OBJECT, b: Type.ARRAY'')\<close>
proof -
  let ?ps = \<open>[(''Type.BOOLEAN'', ''"boolean"''), (''Type.INTEGER'', ''"integer"''),
      (''Type.ARRAY'', ''"array"''), (''Type.STRING'', ''"string"''),
      (''Type.OBJECT'', ''"object"'')]\<close>
  let ?d = "''a: Type.OBJECT, b: Type.ARRAY''"
  have 1: "overlap_free ?d" by code_simp
  have 2: "mset ?ps = mset enum_table" by (simp add: enum_table_def)
  have 3: \<open>(''Type.OBJECT'', ''"object"'') \<in> set enum_table \<and>
      (''Type.ARRAY'', ''"array"'') \<in> set enum_table \<and>
      (''Type.OBJECT'', ''"object"'') \<noteq> (''Type.ARRAY'', ''"array"'') \<and> sublist ''Type.ARRAY'' ?d\<close>
    by code_simp
  from enum_order_irrelevant[of ?d ?ps \<open>''Type.OBJECT''\<close> \<open>''"object"''\<close> \<open>''Type.ARRAY''\<close> \<open>''"array"''\<close>]
    1 2 3
  show ?thesis by blast
qed

text \<open>
  On \<^verbatim>\<open>Type.OBJECType.STRING\<close> the order matters: with \<^verbatim>\<open>Type.STRING\<close> replaced first the
  output differs from that of the script, and that replacement takes the occurrence
  of \<^verbatim>\<open>Type.OBJECT\<close> away.
\<close>

theorem enum_order_counterexample:
  \<open>replace_seq [(''Type.STRING'', ''"string"''), (''Type.OBJECT'', ''"object"''),
      (''Type.ARRAY'', ''"array"''), (''Type.INTEGER'', ''"integer"''),
      (''Type.BOOLEAN'', ''"boolean"'')] ''Type.OBJECType.STRING'' = ''Type.OBJEC"string"'' \<and>
   normalize_enums ''Type.OBJECType.STRING'' = ''"object"ype.STRING'' \<and>
   sublist ''Type.OBJECT'' ''Type.OBJECType.STRING'' \<and>
   \<not> sublist ''Type.OBJECT'' (str_replace ''Type.STRING'' ''"string"'' ''Type.OBJECType.STRING'')\<close>
  by code_simp

subsection \<open>Claims about the rewrite steps\<close>

text \<open>
  Claim C7. For every document, the second rewrite changes nothing in the output of
  the first: the first rewrite leaves no occurrence of the call pattern, so the second
  finds no match.
\<close>

theorem variant_after_primary:
  "rewrite_variant (rewrite_primary d) = rewrite_primary d \<and>
   \<not> sublist call_text (rewrite_primary d)"
  using call_absent_primary[of d]
  by (simp add: rewrite_variant_def call_pattern_def re_sub_lits str_replace_absent_id)

theorem variant_after_primary_witness:
  "rewrite_variant (rewrite_primary ''x = 1; const response = await ai.models.generateContent(p)'')
     = ''x = 1; '' @ handle_primary @ ''p)''"
proof -
  have "rewrite_primary ''x = 1; const response = await ai.models.generateContent(p)''
     = ''x = 1; '' @ handle_primary @ ''p)''" by code_simp
  with variant_after_primary[of "''x = 1; const response = await ai.models.generateContent(p)''"]
  show ?thesis by simp
qed

subsection \<open>Claims about the whole pipeline\<close>




text \<open>
  Claim C4. A document that holds no occurrence of the call pattern, none of the five
  enum tokens and no match of the model pattern leaves the pipeline as it entered it.
\<close>

theorem no_target_unchanged: "no_target d \<Longrightarrow> transform d = d"
  by (rule transform_fixed)

theorem no_target_unchanged_witness:
  "no_target ''const x = await ai.chat(prompt);'' \<and>
   transform ''const x = await ai.chat(prompt);'' = ''const x = await ai.chat(prompt);''"
proof -
  have h: "no_target ''const x = await ai.chat(prompt);''"
    by code_simp
  from no_target_unchanged[OF h] h show ?thesis by simp
qed

text \<open>
  Claim C3, as amended. The rewrite and enum steps applied to their own output change
  nothing, so they never put a second handle construction in front of a call. The
  whole pipeline gives the same output when run again on a document on which the
  stripping step of the first run removed nothing and, more generally, when the
  output of the first run holds no target. It is not idempotent on every document,
  because the stripping step deletes text and what stood on both sides of a deleted
  fragment can form a call pattern.
\<close>

theorem second_run:
  "rewrite_and_normalize (rewrite_and_normalize d) = rewrite_and_normalize d \<and>
   (strip_model (rewrite_and_normalize d) = rewrite_and_normalize d \<longrightarrow>
      transform (transform d) = transform d) \<and>
   (no_target (transform d) \<longrightarrow> transform (transform d) = transform d)"
proof (intro conjI impI)
  show "rewrite_and_normalize (rewrite_and_normalize d) = rewrite_and_normalize d"
    by (rule steps_idem)
next
  assume a: "strip_model (rewrite_and_normalize d) = rewrite_and_normalize d"
  have t: "transform x = strip_model (rewrite_and_normalize x)" for x
    by (simp add: transform_def rewrite_and_normalize_def)
  show "transform (transform d) = transform d" by (simp add: t a steps_idem)
next
  assume "no_target (transform d)"
  then show "transform (transform d) = transform d" by (rule transform_fixed)
qed

theorem second_run_witness:
  \<open>transform (transform ''const response = await ai.models.generateContent(Type.ARRAY)'')
    = transform ''const response = await ai.models.generateContent(Type.ARRAY)'' \<and>
   transform (transform ''    const response = await ai.models.generateContent({\<newline>        model: "gemini-2.5-flash",\<newline>        contents: Type.STRING });'')
    = transform ''    const response = await ai.models.generateContent({\<newline>        model: "gemini-2.5-flash",\<newline>        contents: Type.STRING });''\<close>
proof -
  let ?a = "''const response = await ai.models.generateContent(Type.ARRAY)''"
  let ?b = \<open>''    const response = await ai.models.generateContent({\<newline>        model: "gemini-2.5-flash",\<newline>        contents: Type.STRING });''\<close>
  have 1: "strip_model (rewrite_and_normalize ?a) = rewrite_and_normalize ?a" by code_simp
  have 2: "no_target (transform ?b)" by code_simp
  from second_run[of ?a] 1 have "transform (transform ?a) = transform ?a" by blast
  moreover from second_run[of ?b] 2 have "transform (transform ?b) = transform ?b" by blast
  ultimately show ?thesis by blast
qed

text \<open>
  The first run strips a fragment out of the middle of what then reads as the call
  pattern; the second run rewrites that call.
\<close>

theorem second_run_counterexample:
  \<open>transform ''const response = await ai.momodel: "gemini-x",dels.generateContent(''
     = ''const response = await ai.models.generateContent('' \<and>
   transform (transform ''const response = await ai.momodel: "gemini-x",dels.generateContent('')
     = ''const model = ai.getGenerativeModel({ model: "gemini-2.0-flash-exp" });\<newline>        const response = await model.generateContent(''\<close>
  by code_simp

subsection \<open>Claims about the run\<close>

text \<open>
  Claim C6. When the target file is missing or unreadable, the run ends with
  \<open>IOError\<close> and the world is the one it started in: no file was created or changed
  and nothing was printed.
\<close>

theorem run_unreadable_target:
  "files w target = None \<or> (\<exists>f. files w target = Some f \<and> \<not> readable f) \<Longrightarrow>
   run w = (Inl IOError, w)"
  by (auto simp: run_def read_file_def)

theorem run_unreadable_target_witness:
  "files \<lparr>files = Map.empty, printed = []\<rparr> target = None \<and>
   run \<lparr>files = Map.empty, printed = []\<rparr> = (Inl IOError, \<lparr>files = Map.empty, printed = []\<rparr>)"
  using run_unreadable_target[of "\<lparr>files = Map.empty, printed = []\<rparr>"] by simp

text \<open>
  Claim C9. A run that succeeds has read the target file and leaves the file system
  as it was except that the target now holds the transformed text; no run changes
  any other path; and the result of a run, and what it leaves at the target, depend
  on the target file alone.
\<close>

theorem run_touches_target_only:
  "(run w = (Inr (), w') \<longrightarrow>
      (\<exists>f. files w target = Some f \<and>
           files w' = (files w)(target \<mapsto> f\<lparr>text_of := transform (text_of f)\<rparr>))) \<and>
   (\<forall>p. p \<noteq> target \<longrightarrow> files (snd (run w)) p = files w p) \<and>
   (files v target = files w target \<longrightarrow>
      fst (run v) = fst (run w) \<and> files (snd (run v)) target = files (snd (run w)) target)"
  by (auto simp: run_def read_file_def write_file_def split: option.splits if_splits sum.splits)

theorem run_touches_target_only_witness:
  "run \<lparr>files = [target \<mapsto> \<lparr>text_of = ''x = Type.ARRAY'', readable = True, writable = True\<rparr>],
        printed = []\<rparr>
     = (Inr (), \<lparr>files = [target \<mapsto> \<lparr>text_of = transform ''x = Type.ARRAY'', readable = True,
                                       writable = True\<rparr>],
                 printed = [''Fixed AI service calls!'']\<rparr>) \<and>
   files (snd (run \<lparr>files = [target \<mapsto> \<lparr>text_of = ''x = Type.ARRAY'', readable = True, writable = True\<rparr>,
                            ''notes.txt'' \<mapsto> \<lparr>text_of = ''Type.ARRAY'', readable = True, writable = True\<rparr>],
                   printed = []\<rparr>)) ''notes.txt''
     = Some \<lparr>text_of = ''Type.ARRAY'', readable = True, writable = True\<rparr> \<and>
   fst (run \<lparr>files = [target \<mapsto> \<lparr>text_of = ''x = Type.ARRAY'', readable = True, writable = True\<rparr>,
                       ''notes.txt'' \<mapsto> \<lparr>text_of = ''Type.ARRAY'', readable = True, writable = True\<rparr>],
              printed = []\<rparr>) = Inr ()"
proof -
  let ?f = "\<lparr>text_of = ''x = Type.ARRAY'', readable = True, writable = True\<rparr>"
  let ?n = "\<lparr>text_of = ''Type.ARRAY'', readable = True, writable = True\<rparr>"
  let ?w = "\<lparr>files = [target \<mapsto> ?f], printed = []\<rparr>"
  let ?v = "\<lparr>files = [target \<mapsto> ?f, ''notes.txt'' \<mapsto> ?n], printed = []\<rparr>"
  let ?w' = "\<lparr>files = [target \<mapsto> \<lparr>text_of = transform ''x = Type.ARRAY'', readable = True,
                                     writable = True\<rparr>],
               printed = [''Fixed AI service calls!'']\<rparr>"
  have r: "run ?w = (Inr (), ?w')" by (simp add: run_def read_file_def write_file_def)
  have p: "''notes.txt'' \<noteq> target" by (simp add: target_def)
  have e: "files ?v target = files ?w target" using p by simp
  from run_touches_target_only[of ?w ?w' ?v] r e have 1: "fst (run ?v) = Inr ()" by simp
  from run_touches_target_only[of ?v ?w' ?v] p
  have 2: "files (snd (run ?v)) ''notes.txt'' = files ?v ''notes.txt''" by blast
  from r 1 2 p show ?thesis by simp
qed

end
